theory Spec2Isabelle
  imports Main "HOL-Library.Word"
begin

section \<open>The bracket validator of \<^verbatim>\<open>src/bracketex/solver.cpp\<close>\<close>

text \<open>
  The program reads a length and a string of brackets, scans the first \<open>length\<close>
  characters with a stack of the types of the brackets still open, and prints
  \<^verbatim>\<open>Valid\<close> or \<^verbatim>\<open>Invalid\<close>. The embedding follows the source
  function by function. Two places of the source have no defined result in C++:
  a classifier that reaches its closing brace without a \<^verbatim>\<open>return\<close>, and
  \<^verbatim>\<open>brackets[index]\<close> past the end of the string. Both are values of
  the type \<open>fault\<close> here, so that a run which meets one of them is visible as such.
\<close>

subsection \<open>Types and constants (lines 20--30)\<close>

type_synonym bracket_t = "8 word"

definition CURLY :: bracket_t where
  "CURLY = 0"

definition SQUARE :: bracket_t where
  "SQUARE = 1"

definition ROUND :: bracket_t where
  "ROUND = 2"

type_synonym state_t = bool

definition OPEN :: state_t where
  "OPEN = True"

definition CLOSE :: state_t where
  "CLOSE = False"

text \<open>
  \<open>std::stack<bracket_t>\<close>: a list whose head is the top. \<open>push\<close> is \<open>(#)\<close>,
  \<open>empty()\<close> is \<open>= []\<close>; \<open>top()\<close> and \<open>pop()\<close> are only called on a stack the
  source has just tested to be non-empty, and are the head and the tail of a \<open>#\<close> pattern.
\<close>

type_synonym stack = "bracket_t list"

datatype verdict = Valid | Invalid

datatype fault =
    NoReturnValue  \<comment> \<open>a classifier fell off its end without a \<^verbatim>\<open>return\<close>\<close>
  | OutOfBounds    \<comment> \<open>\<^verbatim>\<open>brackets[index]\<close> with \<open>index > brackets.size()\<close>\<close>

text \<open>
  How control leaves a piece of code: by \<^verbatim>\<open>return 0\<close> after printing a verdict, or
  by falling through to the next statement with the stack as it then is.
\<close>

datatype flow = Return verdict | Continue stack

subsection \<open>The classifiers (lines 32--48)\<close>

definition bracket_type :: "char \<Rightarrow> bracket_t option" where
  "bracket_type bracket =
     (if bracket = CHR ''}'' \<or> bracket = CHR ''{'' then Some CURLY
      else if bracket = CHR '']'' \<or> bracket = CHR ''['' then Some SQUARE
      else if bracket = CHR '')'' \<or> bracket = CHR ''('' then Some ROUND
      else None)"

definition bracket_state :: "char \<Rightarrow> state_t option" where
  "bracket_state bracket =
     (if bracket = CHR ''}'' \<or> bracket = CHR '')'' \<or> bracket = CHR '']'' then Some CLOSE
      else if bracket = CHR ''{'' \<or> bracket = CHR ''('' \<or> bracket = CHR ''['' then Some OPEN
      else None)"

subsection \<open>The scan (lines 62--82)\<close>

text \<open>
  \<^verbatim>\<open>brackets[index]\<close> on a \<open>std::string\<close>: the character at \<open>index\<close>, the
  terminating \<open>'\0'\<close> at \<open>index = size()\<close>, undefined beyond.
\<close>

definition string_at :: "string \<Rightarrow> int \<Rightarrow> fault + char" where
  "string_at brackets index =
     (if 0 \<le> index \<and> index < int (length brackets) then Inr (brackets ! nat index)
      else if index = int (length brackets) then Inr (CHR 0x00)
      else Inl OutOfBounds)"

text \<open>Lines 64--81: the loop body once \<open>bracket\<close> has been fetched.\<close>

definition process :: "char \<Rightarrow> stack \<Rightarrow> fault + flow" where
  "process bracket open_brackets =
     (case bracket_state bracket of
        None \<Rightarrow> Inl NoReturnValue
      | Some bstate \<Rightarrow>
         (case bracket_type bracket of
            None \<Rightarrow> Inl NoReturnValue
          | Some btype \<Rightarrow>
              if bstate = OPEN then Inr (Continue (btype # open_brackets))
              else if bstate = CLOSE then
                (case open_brackets of
                   [] \<Rightarrow> Inr (Return Invalid)
                 | deepest_open # popped \<Rightarrow>
                     if btype \<noteq> deepest_open then Inr (Return Invalid)
                     else Inr (Continue popped))
              else Inr (Continue open_brackets)))"

text \<open>Lines 63--81: one iteration of the loop at \<open>index\<close>.\<close>

definition loop_body :: "string \<Rightarrow> int \<Rightarrow> stack \<Rightarrow> fault + flow" where
  "loop_body brackets index open_brackets =
     (case string_at brackets index of
        Inl f \<Rightarrow> Inl f
      | Inr bracket \<Rightarrow> process bracket open_brackets)"

text \<open>
  Line 62: \<^verbatim>\<open>for (ll index = 0; index < length; index++)\<close>, entered at \<open>index\<close>.
  \<open>index\<close> and \<open>len\<close> are \<open>long long\<close> in the source; \<open>index\<close> is only
  incremented while \<open>index < len\<close>, so it never leaves the range of the type and the
  model uses \<open>int\<close>.
\<close>

function for_loop :: "string \<Rightarrow> int \<Rightarrow> int \<Rightarrow> stack \<Rightarrow> fault + flow" where
  "for_loop brackets len index open_brackets =
     (if index < len then
        (case loop_body brackets index open_brackets of
           Inl f \<Rightarrow> Inl f
         | Inr (Return v) \<Rightarrow> Inr (Return v)
         | Inr (Continue open_brackets') \<Rightarrow> for_loop brackets len (index + 1) open_brackets')
      else Inr (Continue open_brackets))"
  by pat_completeness auto
termination
  by (relation "measure (\<lambda>(brackets, len, index, open_brackets). nat (len - index))") auto

subsection \<open>The program (lines 50--91)\<close>

text \<open>
  \<open>main\<close> after its two reads: \<open>len\<close> is the number read into \<open>length\<close>,
  \<open>brackets\<close> the string. The result is the verdict printed.
\<close>

definition main :: "int \<Rightarrow> string \<Rightarrow> fault + verdict" where
  "main len brackets =
     (case for_loop brackets len 0 [] of
        Inl f \<Rightarrow> Inl f
      | Inr (Return v) \<Rightarrow> Inr v
      | Inr (Continue open_brackets) \<Rightarrow>
          if open_brackets = [] then Inr Valid else Inr Invalid)"

text \<open>
  The same passage from the way the loop was left to the result of \<open>main\<close>, as a
  function of its own: the verdict of a \<^verbatim>\<open>return\<close> inside the loop (lines 70
  and 76), or the test of lines 84--88.
\<close>

definition verdict_of :: "fault + flow \<Rightarrow> fault + verdict" where
  "verdict_of r =
     (case r of
        Inl f \<Rightarrow> Inl f
      | Inr (Return v) \<Rightarrow> Inr v
      | Inr (Continue open_brackets) \<Rightarrow>
          if open_brackets = [] then Inr Valid else Inr Invalid)"

subsection \<open>Configurations of the loop\<close>

text \<open>
  The configurations \<open>(index, open_brackets)\<close> in which the loop test of line 62 is
  evaluated during the run on \<open>brackets\<close> and \<open>len\<close>: the first one, and the one
  after each iteration that neither returns nor faults.
\<close>

inductive reachable :: "string \<Rightarrow> int \<Rightarrow> int \<times> stack \<Rightarrow> bool"
  for brackets :: string and len :: int where
  start: "reachable brackets len (0, [])"
| iterate: "reachable brackets len (index, open_brackets) \<Longrightarrow> index < len \<Longrightarrow>
     loop_body brackets index open_brackets = Inr (Continue open_brackets') \<Longrightarrow>
     reachable brackets len (index + 1, open_brackets')"

text \<open>
  The complete runs of the program, as a relation between the input and what the run
  ends with: a \<^verbatim>\<open>return\<close> inside the loop, a fault inside the loop, or the test of
  line 84 after the loop.
\<close>

inductive run :: "string \<Rightarrow> int \<Rightarrow> fault + verdict \<Rightarrow> bool"
  for brackets :: string and len :: int where
  returns: "reachable brackets len (index, open_brackets) \<Longrightarrow> index < len \<Longrightarrow>
     loop_body brackets index open_brackets = Inr (Return v) \<Longrightarrow> run brackets len (Inr v)"
| faults: "reachable brackets len (index, open_brackets) \<Longrightarrow> index < len \<Longrightarrow>
     loop_body brackets index open_brackets = Inl f \<Longrightarrow> run brackets len (Inl f)"
| finishes: "reachable brackets len (index, open_brackets) \<Longrightarrow> \<not> index < len \<Longrightarrow>
     run brackets len (Inr (if open_brackets = [] then Valid else Invalid))"

subsection \<open>Specification vocabulary\<close>

text \<open>The six bracket glyphs, and the glyph pairs with their types and roles.\<close>

definition glyphs :: "char list" where
  "glyphs = ''{}[]()''"

definition glyph_table :: "(char \<times> bracket_t \<times> state_t) list" where
  "glyph_table =
     [(CHR ''{'', CURLY, OPEN), (CHR ''}'', CURLY, CLOSE),
      (CHR ''['', SQUARE, OPEN), (CHR '']'', SQUARE, CLOSE),
      (CHR ''('', ROUND, OPEN), (CHR '')'', ROUND, CLOSE)]"

definition pairs :: "(char \<times> char \<times> bracket_t) list" where
  "pairs = [(CHR ''{'', CHR ''}'', CURLY), (CHR ''['', CHR '']'', SQUARE), (CHR ''('', CHR '')'', ROUND)]"

text \<open>
  Balanced bracket sequences, by the usual grammar: the empty sequence, a balanced
  sequence enclosed in a pair of one type, and two balanced sequences side by side.
\<close>

inductive balanced :: "string \<Rightarrow> bool" where
  empty: "balanced []"
| enclose: "balanced w \<Longrightarrow> (a, b, t) \<in> set pairs \<Longrightarrow> balanced (a # w @ [b])"
| juxtapose: "balanced u \<Longrightarrow> balanced v \<Longrightarrow> balanced (u @ v)"

text \<open>
  \<open>unclosed p ts\<close>: the brackets of \<open>p\<close> that are open and not yet closed have the
  types \<open>ts\<close>, earliest-opened first. Such a \<open>p\<close> is a balanced sequence, followed for
  each unclosed bracket by that opening bracket and a balanced sequence.
\<close>

inductive unclosed :: "string \<Rightarrow> bracket_t list \<Rightarrow> bool" where
  none: "balanced b \<Longrightarrow> unclosed b []"
| opened: "unclosed p ts \<Longrightarrow> (a, c, t) \<in> set pairs \<Longrightarrow> balanced b \<Longrightarrow>
     unclosed (p @ a # b) (ts @ [t])"

text \<open>
  The full-scan reference of the specification: the same steps on every character with
  no early exit. A closing bracket that does not match clears the flag \<open>ok\<close> and leaves
  the stack; the verdict is given once, after the last character.
\<close>

fun full_scan :: "bool \<Rightarrow> stack \<Rightarrow> string \<Rightarrow> fault + verdict" where
  "full_scan ok open_brackets [] =
     Inr (if ok \<and> open_brackets = [] then Valid else Invalid)"
| "full_scan ok open_brackets (bracket # rest) =
     (case bracket_state bracket of
        None \<Rightarrow> Inl NoReturnValue
      | Some bstate \<Rightarrow>
         (case bracket_type bracket of
            None \<Rightarrow> Inl NoReturnValue
          | Some btype \<Rightarrow>
              if bstate = OPEN then full_scan ok (btype # open_brackets) rest
              else if open_brackets = [] then full_scan False open_brackets rest
              else if hd open_brackets \<noteq> btype then full_scan False open_brackets rest
              else full_scan ok (tl open_brackets) rest))"

definition full_scan_reference :: "string \<Rightarrow> fault + verdict" where
  "full_scan_reference brackets = full_scan True [] brackets"

section \<open>Properties\<close>

subsection \<open>The classifiers and one step of the scan\<close>

lemma type_consts_distinct [simp]:
  "CURLY \<noteq> SQUARE" "CURLY \<noteq> ROUND" "SQUARE \<noteq> ROUND"
  "SQUARE \<noteq> CURLY" "ROUND \<noteq> CURLY" "ROUND \<noteq> SQUARE"
  by (simp_all add: CURLY_def SQUARE_def ROUND_def)

lemma state_consts_distinct [simp]: "OPEN \<noteq> CLOSE" "CLOSE \<noteq> OPEN"
  by (simp_all add: OPEN_def CLOSE_def)

lemma process_open:
  "(a, b, t) \<in> set pairs \<Longrightarrow> process a stk = Inr (Continue (t # stk))"
  by (auto simp: pairs_def process_def bracket_state_def bracket_type_def)

lemma process_close:
  "(a, b, t) \<in> set pairs \<Longrightarrow>
   process b stk = Inr (case stk of [] \<Rightarrow> Return Invalid
                        | d # popped \<Rightarrow> if t \<noteq> d then Return Invalid else Continue popped)"
  by (auto simp: pairs_def process_def bracket_state_def bracket_type_def split: list.splits)

lemma process_Continue_cases:
  assumes "process c stk = Inr (Continue stk')"
  shows "(\<exists>b t. (c, b, t) \<in> set pairs \<and> stk' = t # stk) \<or>
         (\<exists>a t. (a, c, t) \<in> set pairs \<and> stk = t # stk')"
  using assms
  by (auto simp: pairs_def process_def bracket_state_def bracket_type_def
           split: if_splits list.splits)

lemma pairs_opener_unique:
  "(a, c, t) \<in> set pairs \<Longrightarrow> (a', c', t) \<in> set pairs \<Longrightarrow> a' = a \<and> c' = c"
  by (auto simp: pairs_def)

lemma process_glyph_no_fault:
  "c \<in> set glyphs \<Longrightarrow> \<exists>fl. process c stk = Inr fl"
  by (auto simp: glyphs_def process_def bracket_state_def bracket_type_def
           split: list.splits)

lemma process_no_fault_glyph:
  "process c stk = Inr fl \<Longrightarrow> c \<in> set glyphs"
  by (auto simp: glyphs_def process_def bracket_state_def bracket_type_def
           split: if_splits)

lemma process_nul: "process (CHR 0x00) stk = Inl NoReturnValue"
  by (simp add: process_def bracket_state_def)

lemma process_Return: "process c stk = Inr (Return v) \<Longrightarrow> v = Invalid"
  by (auto simp: process_def split: option.splits if_splits list.splits)

subsection \<open>Unclosed brackets of a prefix\<close>

lemma unclosed_append_balanced:
  "unclosed p ts \<Longrightarrow> balanced x \<Longrightarrow> unclosed (p @ x) ts"
proof (induction rule: unclosed.cases)
  case (none b)
  then show ?case by (auto intro: unclosed.none balanced.juxtapose)
next
  case (opened q us a c t b)
  from opened have "balanced (b @ x)" by (auto intro: balanced.juxtapose)
  with opened have "unclosed (q @ a # (b @ x)) (us @ [t])"
    by (auto intro: unclosed.opened)
  with opened show ?case by simp
qed

lemma unclosed_Nil: "unclosed p [] \<Longrightarrow> balanced p"
  by (erule unclosed.cases) auto

lemma unclosed_snoc:
  "unclosed p (ts @ [t]) \<Longrightarrow>
   \<exists>q a c b. p = q @ a # b \<and> unclosed q ts \<and> (a, c, t) \<in> set pairs \<and> balanced b"
  by (erule unclosed.cases) auto

lemma unclosed_step:
  assumes "process c stk = Inr (Continue stk')" and "unclosed p (rev stk)"
  shows "unclosed (p @ [c]) (rev stk')"
  using process_Continue_cases [OF assms(1)]
proof (elim disjE exE conjE)
  fix b t assume "(c, b, t) \<in> set pairs" "stk' = t # stk"
  with assms(2) unclosed.opened [of p "rev stk" c b t "[]"] show ?thesis
    by (simp add: balanced.empty)
next
  fix a t assume a: "(a, c, t) \<in> set pairs" and s: "stk = t # stk'"
  with assms(2) have "unclosed p (rev stk' @ [t])" by simp
  from unclosed_snoc [OF this] obtain q a' c' b where
    p: "p = q @ a' # b" and q: "unclosed q (rev stk')"
    and a': "(a', c', t) \<in> set pairs" and b: "balanced b" by blast
  from pairs_opener_unique [OF a a'] have "a' = a" by simp
  from balanced.enclose [OF b a] have "balanced (a # b @ [c])" .
  from unclosed_append_balanced [OF q this] show ?thesis
    using p \<open>a' = a\<close> by simp
qed

subsection \<open>The loop and its configurations\<close>

declare for_loop.simps [simp del]

lemma main_verdict_of: "main len brackets = verdict_of (for_loop brackets len 0 [])"
  by (simp add: main_def verdict_of_def)

lemma for_loop_exit: "\<not> index < len \<Longrightarrow> for_loop brackets len index stk = Inr (Continue stk)"
  by (simp add: for_loop.simps)

lemma for_loop_iter:
  "index < len \<Longrightarrow> for_loop brackets len index stk =
     (case loop_body brackets index stk of
        Inl f \<Rightarrow> Inl f
      | Inr (Return v) \<Rightarrow> Inr (Return v)
      | Inr (Continue stk') \<Rightarrow> for_loop brackets len (index + 1) stk')"
  by (subst for_loop.simps) simp

lemma string_at_mid: "string_at (p @ c # r) (int (length p)) = Inr c"
  by (simp add: string_at_def)

lemma loop_body_mid: "loop_body (p @ c # r) (int (length p)) stk = process c stk"
  by (simp add: loop_body_def string_at_mid)

lemma loop_body_Inr:
  assumes "loop_body brackets index stk = Inr fl"
  shows "0 \<le> index \<and> index < int (length brackets) \<and> process (brackets ! nat index) stk = Inr fl"
  using assms
  by (auto simp: loop_body_def string_at_def process_nul split: if_splits)

lemma reachable_bounds:
  "reachable brackets len (index, stk) \<Longrightarrow>
   0 \<le> index \<and> index \<le> max 0 len \<and> index \<le> int (length brackets)"
proof (induction "(index, stk)" arbitrary: index stk rule: reachable.induct)
  case start
  then show ?case by simp
next
  case (iterate index open_brackets open_brackets')
  from loop_body_Inr [OF iterate(4)] iterate(2,3) show ?case by simp
qed

text \<open>
  For a \<open>len\<close> in the range of \<open>long long\<close>, \<open>index\<close> stays in that range: the
  increment of line 62 does not overflow.
\<close>

lemma index_in_long_long_range:
  assumes "reachable brackets len (index, stk)" and "len < 2 ^ 63"
  shows "0 \<le> index \<and> index < 2 ^ 63"
  using reachable_bounds [OF assms(1)] assms(2) by (simp add: max_def split: if_splits)

lemma reachable_for_loop:
  "reachable brackets len (index, stk) \<Longrightarrow>
   for_loop brackets len 0 [] = for_loop brackets len index stk"
proof (induction "(index, stk)" arbitrary: index stk rule: reachable.induct)
  case start
  then show ?case by simp
next
  case (iterate index open_brackets open_brackets')
  then show ?case by (simp add: for_loop_iter)
qed

lemma reachable_unclosed:
  "reachable brackets len (index, stk) \<Longrightarrow> unclosed (take (nat index) brackets) (rev stk)"
proof (induction "(index, stk)" arbitrary: index stk rule: reachable.induct)
  case start
  then show ?case by (simp add: unclosed.none balanced.empty)
next
  case (iterate index open_brackets open_brackets')
  from loop_body_Inr [OF iterate(4)]
  have i: "0 \<le> index" "nat index < length brackets"
    and p: "process (brackets ! nat index) open_brackets = Inr (Continue open_brackets')"
    by auto
  from i have "take (nat (index + 1)) brackets = take (nat index) brackets @ [brackets ! nat index]"
    by (simp add: nat_add_distrib take_Suc_conv_app_nth)
  with unclosed_step [OF p iterate(2)] show ?case by simp
qed

lemma for_loop_Continue_reachable:
  "reachable brackets len (index, stk) \<Longrightarrow> for_loop brackets len index stk = Inr (Continue stk') \<Longrightarrow>
   reachable brackets len (max index len, stk')"
proof (induction brackets len index stk rule: for_loop.induct)
  case (1 brackets len index open_brackets)
  show ?case
  proof (cases "index < len")
    case False
    with 1(3) have "stk' = open_brackets" by (simp add: for_loop_exit)
    with False 1(2) show ?thesis by (simp add: max_def)
  next
    case True
    with 1(3) obtain s where b: "loop_body brackets index open_brackets = Inr (Continue s)"
      and f: "for_loop brackets len (index + 1) s = Inr (Continue stk')"
      by (auto simp: for_loop_iter split: sum.splits flow.splits)
    from reachable.iterate [OF 1(2) True b] have "reachable brackets len (index + 1, s)" .
    from 1(1) [OF True b refl this f] True show ?thesis by (simp add: max_def)
  qed
qed

lemma run_verdict_of:
  "reachable brackets len (index, stk) \<Longrightarrow>
   run brackets len (verdict_of (for_loop brackets len index stk))"
proof (induction brackets len index stk rule: for_loop.induct)
  case (1 brackets len index open_brackets)
  show ?case
  proof (cases "index < len")
    case False
    with run.finishes [OF 1(2) False] show ?thesis
      by (cases "open_brackets = []") (simp_all add: for_loop_exit verdict_of_def)
  next
    case True
    show ?thesis
    proof (cases "loop_body brackets index open_brackets")
      case (Inl f)
      with run.faults [OF 1(2) True Inl] True show ?thesis
        by (simp add: for_loop_iter verdict_of_def)
    next
      case (Inr fl)
      show ?thesis
      proof (cases fl)
        case (Return v)
        with Inr run.returns [OF 1(2) True] True show ?thesis
          by (simp add: for_loop_iter verdict_of_def)
      next
        case (Continue s)
        with Inr have b: "loop_body brackets index open_brackets = Inr (Continue s)" by simp
        from 1(1) [OF True b refl reachable.iterate [OF 1(2) True b]] True b
        show ?thesis by (simp add: for_loop_iter)
      qed
    qed
  qed
qed

lemma run_main: "run brackets len out = (out = main len brackets)"
proof
  assume "run brackets len out"
  then show "out = main len brackets"
  proof (cases rule: run.cases)
    case (returns index open_brackets v)
    then show ?thesis
      by (simp add: main_verdict_of reachable_for_loop for_loop_iter verdict_of_def)
  next
    case (faults index open_brackets f)
    then show ?thesis
      by (simp add: main_verdict_of reachable_for_loop for_loop_iter verdict_of_def)
  next
    case (finishes index open_brackets)
    then show ?thesis
      by (simp add: main_verdict_of reachable_for_loop for_loop_exit verdict_of_def)
  qed
next
  assume "out = main len brackets"
  with run_verdict_of [OF reachable.start, of brackets len] show "run brackets len out"
    by (simp add: main_verdict_of)
qed

subsection \<open>Balanced sequences are scanned through\<close>

lemma for_loop_mid:
  "int (length p) < len \<Longrightarrow> for_loop (p @ c # r) len (int (length p)) stk =
     (case process c stk of
        Inl f \<Rightarrow> Inl f
      | Inr (Return v) \<Rightarrow> Inr (Return v)
      | Inr (Continue stk') \<Rightarrow> for_loop (p @ c # r) len (int (length p) + 1) stk')"
  by (simp add: for_loop_iter loop_body_mid)

lemma balanced_skip:
  "balanced w \<Longrightarrow> int (length p + length w) \<le> len \<Longrightarrow>
   for_loop (p @ w @ r) len (int (length p)) stk =
   for_loop (p @ w @ r) len (int (length p + length w)) stk"
proof (induction w arbitrary: p r stk rule: balanced.induct)
  case empty
  then show ?case by simp
next
  case (enclose w a b t)
  let ?s = "p @ (a # w @ [b]) @ r"
  have s1: "?s = p @ a # (w @ b # r)" by simp
  have s2: "?s = (p @ [a]) @ w @ (b # r)" by simp
  have s3: "?s = (p @ a # w) @ b # r" by simp
  from enclose.prems have l: "int (length p) < len" "int (length (p @ a # w)) < len"
    "int (length (p @ [a]) + length w) \<le> len" by simp_all
  have "for_loop ?s len (int (length p)) stk = for_loop ?s len (int (length p) + 1) (t # stk)"
    by (subst s1, subst for_loop_mid [OF l(1)]) (simp add: process_open [OF enclose.hyps(2)])
  also have "\<dots> = for_loop ?s len (int (length (p @ [a]))) (t # stk)"
    by (simp add: add.commute)
  also have "\<dots> = for_loop ?s len (int (length (p @ [a]) + length w)) (t # stk)"
    by (subst s2, subst s2, rule enclose.IH [OF l(3)])
  also have "\<dots> = for_loop ?s len (int (length (p @ a # w))) (t # stk)"
    by simp
  also have "\<dots> = for_loop ?s len (int (length (p @ a # w)) + 1) stk"
    by (subst s3, subst for_loop_mid [OF l(2)])
       (simp add: process_close [OF enclose.hyps(2)])
  also have "\<dots> = for_loop ?s len (int (length p + length (a # w @ [b]))) stk"
    by simp
  finally show ?case .
next
  case (juxtapose u v)
  let ?s = "p @ (u @ v) @ r"
  have s1: "?s = p @ u @ (v @ r)" by simp
  have s2: "?s = (p @ u) @ v @ r" by simp
  from juxtapose.prems have l: "int (length p + length u) \<le> len"
    "int (length (p @ u) + length v) \<le> len" by simp_all
  have "for_loop ?s len (int (length p)) stk = for_loop ?s len (int (length p + length u)) stk"
    by (subst s1, subst s1, rule juxtapose.IH(1) [OF l(1)])
  also have "\<dots> = for_loop ?s len (int (length (p @ u))) stk"
    by simp
  also have "\<dots> = for_loop ?s len (int (length (p @ u) + length v)) stk"
    by (subst s2, subst s2, rule juxtapose.IH(2) [OF l(2)])
  also have "\<dots> = for_loop ?s len (int (length p + length (u @ v))) stk"
    by (simp add: add.assoc)
  finally show ?case .
qed

lemma unclosed_skip:
  "unclosed p ts \<Longrightarrow> int (length p) \<le> len \<Longrightarrow>
   for_loop (p @ r) len 0 [] = for_loop (p @ r) len (int (length p)) (rev ts)"
proof (induction p ts arbitrary: r rule: unclosed.induct)
  case (none b)
  from balanced_skip [OF none(1), of "[]" len r "[]"] none(2) show ?case by simp
next
  case (opened p ts a c t b)
  let ?s = "(p @ a # b) @ r"
  have s1: "?s = p @ (a # b @ r)" by simp
  have s2: "?s = (p @ [a]) @ b @ r" by simp
  from opened.prems have l: "int (length p) \<le> len" "int (length p) < len"
    "int (length (p @ [a]) + length b) \<le> len" by simp_all
  have "for_loop ?s len 0 [] = for_loop ?s len (int (length p)) (rev ts)"
    by (subst s1, subst s1, rule opened.IH [OF l(1)])
  also have "\<dots> = for_loop ?s len (int (length p) + 1) (t # rev ts)"
    by (subst s1, subst for_loop_mid [OF l(2)]) (simp add: process_open [OF opened.hyps(2)])
  also have "\<dots> = for_loop ?s len (int (length (p @ [a]))) (t # rev ts)"
    by (simp add: add.commute)
  also have "\<dots> = for_loop ?s len (int (length (p @ [a]) + length b)) (t # rev ts)"
    by (subst s2, subst s2, rule balanced_skip [OF opened.hyps(3) l(3)])
  also have "\<dots> = for_loop ?s len (int (length (p @ a # b))) (rev (ts @ [t]))"
    by simp
  finally show ?case .
qed

lemma unclosed_unique:
  assumes "unclosed p ts" and "unclosed p ts'"
  shows "ts' = ts"
proof -
  have "for_loop p (int (length p)) (int (length p)) (rev ts') =
        for_loop p (int (length p)) (int (length p)) (rev ts)"
    using unclosed_skip [OF assms(1), of "int (length p)" "[]"]
          unclosed_skip [OF assms(2), of "int (length p)" "[]"] by simp
  then show ?thesis by (simp add: for_loop_exit)
qed

lemma balanced_main:
  assumes "balanced brackets"
  shows "main (int (length brackets)) brackets = Inr Valid"
proof -
  from balanced_skip [OF assms, of "[]" "int (length brackets)" "[]" "[]"]
  have "for_loop brackets (int (length brackets)) 0 [] = Inr (Continue [])"
    by (simp add: for_loop_exit)
  then show ?thesis by (simp add: main_def)
qed

lemma for_loop_Return: "for_loop brackets len index stk = Inr (Return v) \<Longrightarrow> v = Invalid"
proof (induction brackets len index stk rule: for_loop.induct)
  case (1 brackets len index open_brackets)
  show ?case
  proof (cases "index < len")
    case False
    with 1(2) show ?thesis by (simp add: for_loop_exit)
  next
    case True
    show ?thesis
    proof (cases "loop_body brackets index open_brackets")
      case (Inl f)
      with 1(2) True show ?thesis by (simp add: for_loop_iter)
    next
      case (Inr fl)
      show ?thesis
      proof (cases fl)
        case (Return v')
        with Inr 1(2) True have "v' = v" by (simp add: for_loop_iter)
        moreover from Inr Return loop_body_Inr have "v' = Invalid"
          by (blast dest: process_Return)
        ultimately show ?thesis by simp
      next
        case (Continue s)
        with Inr have b: "loop_body brackets index open_brackets = Inr (Continue s)" by simp
        with 1(2) True have "for_loop brackets len (index + 1) s = Inr (Return v)"
          by (simp add: for_loop_iter)
        from 1(1) [OF True b refl this] show ?thesis .
      qed
    qed
  qed
qed

lemma main_Valid_reachable:
  assumes "main len brackets = Inr Valid"
  shows "reachable brackets len (max 0 len, [])"
proof -
  from assms have "for_loop brackets len 0 [] = Inr (Continue [])"
    by (auto simp: main_def split: sum.splits flow.splits if_splits dest: for_loop_Return)
  from for_loop_Continue_reachable [OF reachable.start this] show ?thesis .
qed

lemma main_balanced:
  assumes "main (int (length brackets)) brackets = Inr Valid"
  shows "balanced brackets"
proof -
  from reachable_unclosed [OF main_Valid_reachable [OF assms]]
  have "unclosed brackets []" by simp
  then show ?thesis by (rule unclosed_Nil)
qed

lemma for_loop_no_fault:
  "set brackets \<subseteq> set glyphs \<Longrightarrow> 0 \<le> index \<Longrightarrow> len \<le> int (length brackets) \<Longrightarrow>
   \<exists>fl. for_loop brackets len index stk = Inr fl"
proof (induction brackets len index stk rule: for_loop.induct)
  case (1 brackets len index open_brackets)
  show ?case
  proof (cases "index < len")
    case False
    then show ?thesis by (simp add: for_loop_exit)
  next
    case True
    with 1(3,4) have i: "nat index < length brackets" "index < int (length brackets)" by simp_all
    with 1(2) have "brackets ! nat index \<in> set glyphs" by (meson nth_mem subsetD)
    from process_glyph_no_fault [OF this] obtain fl where
      p: "process (brackets ! nat index) open_brackets = Inr fl" by blast
    with i 1(3) have b: "loop_body brackets index open_brackets = Inr fl"
      by (simp add: loop_body_def string_at_def)
    show ?thesis
    proof (cases fl)
      case (Return v)
      with b True show ?thesis by (simp add: for_loop_iter)
    next
      case (Continue s)
      with b have b': "loop_body brackets index open_brackets = Inr (Continue s)" by simp
      from 1(1) [OF True b' refl 1(2) _ 1(4)] 1(3) b' True show ?thesis
        by (simp add: for_loop_iter)
    qed
  qed
qed

lemma main_no_fault:
  assumes "set brackets \<subseteq> set glyphs" and "len \<le> int (length brackets)"
  shows "main len brackets = Inr Valid \<or> main len brackets = Inr Invalid"
proof -
  from for_loop_no_fault [OF assms(1) _ assms(2), of 0 "[]"] obtain fl where
    "for_loop brackets len 0 [] = Inr fl" by auto
  then show ?thesis
    by (cases fl) (auto simp: main_def intro: verdict.exhaust)
qed

subsection \<open>Dependence on the input, and the full scan\<close>

lemma string_at_take:
  assumes "take n s1 = take n s2" and "index < int n"
  shows "string_at s1 index = string_at s2 index"
proof (cases "n \<le> length s1")
  case True
  from assms(1) have "length (take n s1) = length (take n s2)" by simp
  with True have l2: "n \<le> length s2" by simp
  show ?thesis
  proof (cases "0 \<le> index")
    case False
    then show ?thesis by (simp add: string_at_def)
  next
    case pos: True
    with assms(2) have i: "nat index < n" by simp
    then have "s1 ! nat index = take n s1 ! nat index" "s2 ! nat index = take n s2 ! nat index"
      by simp_all
    with assms(1) have "s1 ! nat index = s2 ! nat index" by simp
    with pos assms(2) True l2 show ?thesis by (simp add: string_at_def)
  qed
next
  case False
  then have s1: "take n s1 = s1" by simp
  from assms(1) have "length (take n s1) = length (take n s2)" by simp
  with False have "take n s2 = s2" by simp
  with assms(1) s1 show ?thesis by simp
qed

lemma for_loop_take:
  "take (nat len) s1 = take (nat len) s2 \<Longrightarrow> for_loop s1 len index stk = for_loop s2 len index stk"
proof (induction s1 len index stk rule: for_loop.induct)
  case (1 brackets len index open_brackets)
  show ?case
  proof (cases "index < len")
    case False
    then show ?thesis by (simp add: for_loop_exit)
  next
    case True
    then have "index < int (nat len)" by simp
    from string_at_take [OF 1(2) this]
    have b: "loop_body s2 index open_brackets = loop_body brackets index open_brackets"
      by (simp add: loop_body_def)
    show ?thesis
    proof (cases "loop_body brackets index open_brackets")
      case (Inl f)
      with b have "loop_body s2 index open_brackets = Inl f" by simp
      with Inl True show ?thesis by (simp add: for_loop_iter)
    next
      case (Inr fl)
      show ?thesis
      proof (cases fl)
        case (Return v)
        with Inr b have "loop_body s2 index open_brackets = Inr (Return v)" by simp
        with Inr Return True show ?thesis by (simp add: for_loop_iter)
      next
        case (Continue s)
        with Inr have c: "loop_body brackets index open_brackets = Inr (Continue s)" by simp
        with b have "loop_body s2 index open_brackets = Inr (Continue s)" by simp
        with 1(1) [OF True c refl 1(2)] c True show ?thesis
          by (simp add: for_loop_iter)
      qed
    qed
  qed
qed

lemma full_scan_False:
  "set w \<subseteq> set glyphs \<Longrightarrow> full_scan False stk w = Inr Invalid"
proof (induction w arbitrary: stk)
  case Nil
  then show ?case by simp
next
  case (Cons c w)
  then have "c \<in> set glyphs" and w: "set w \<subseteq> set glyphs" by simp_all
  then obtain bt bs where "bracket_type c = Some bt" "bracket_state c = Some bs"
    by (auto simp: glyphs_def bracket_type_def bracket_state_def)
  with Cons.IH [OF w] show ?case by simp
qed

lemma full_scan_for_loop:
  "set brackets \<subseteq> set glyphs \<Longrightarrow> 0 \<le> index \<Longrightarrow> index \<le> len \<Longrightarrow> len = int (length brackets) \<Longrightarrow>
   verdict_of (for_loop brackets len index stk) = full_scan True stk (drop (nat index) brackets)"
proof (induction brackets len index stk rule: for_loop.induct)
  case (1 brackets len index open_brackets)
  show ?case
  proof (cases "index < len")
    case False
    with 1(3,4,5) show ?thesis by (simp add: for_loop_exit verdict_of_def)
  next
    case True
    let ?c = "brackets ! nat index"
    let ?rest = "drop (nat (index + 1)) brackets"
    from True 1(3,5) have i: "nat index < length brackets" by simp
    then have d: "drop (nat index) brackets = ?c # ?rest"
      using 1(3) by (simp add: Cons_nth_drop_Suc nat_add_distrib)
    from 1(2) have rest: "set ?rest \<subseteq> set glyphs"
      by (meson set_drop_subset subset_trans)
    from i 1(2) have g: "?c \<in> set glyphs" by (meson nth_mem subsetD)
    from True 1(3,5) have b: "loop_body brackets index open_brackets = process ?c open_brackets"
      by (simp add: loop_body_def string_at_def)
    from process_glyph_no_fault [OF g] obtain fl where
      p: "process ?c open_brackets = Inr fl" by blast
    show ?thesis
    proof (cases fl)
      case (Return v)
      with p have "full_scan True open_brackets (?c # ?rest) = Inr Invalid"
        by (auto simp: process_def full_scan_False [OF rest]
                 split: option.splits if_splits list.splits)
      moreover from p Return have "v = Invalid" by (simp add: process_Return)
      ultimately show ?thesis using True b p Return d
        by (simp add: for_loop_iter verdict_of_def)
    next
      case (Continue s)
      with p b have c: "loop_body brackets index open_brackets = Inr (Continue s)" by simp
      from 1(3) True have "0 \<le> index + 1" "index + 1 \<le> len" by simp_all
      from 1(1) [OF True c refl 1(2) this 1(5)]
      have "verdict_of (for_loop brackets len (index + 1) s) = full_scan True s ?rest" .
      moreover from p Continue
      have "full_scan True open_brackets (?c # ?rest) = full_scan True s ?rest"
        by (auto simp: process_def split: option.splits if_splits list.splits)
      ultimately show ?thesis using True c d by (simp add: for_loop_iter)
    qed
  qed
qed

lemma reachable_prefix:
  "reachable (pre @ x) len (index, stk) \<Longrightarrow> index \<le> int (length pre) \<Longrightarrow>
   reachable (pre @ y) len (index, stk)"
proof (induction "(index, stk)" arbitrary: index stk rule: reachable.induct)
  case start
  show ?case by (rule reachable.start)
next
  case (iterate index open_brackets open_brackets')
  from loop_body_Inr [OF iterate(4)] have pos: "0 \<le> index" by simp
  with iterate(5) have lt: "index < int (length pre)" "nat index < length pre" by simp_all
  then have "string_at (pre @ y) index = string_at (pre @ x) index"
    using pos by (simp add: string_at_def nth_append)
  with iterate(4) have b: "loop_body (pre @ y) index open_brackets = Inr (Continue open_brackets')"
    by (simp add: loop_body_def)
  from iterate(2) lt have "reachable (pre @ y) len (index, open_brackets)" by simp
  from reachable.iterate [OF this iterate(3) b] show ?case .
qed

subsection \<open>When the outcome is a verdict\<close>

lemma loop_body_Inl:
  assumes "loop_body brackets index stk = Inl f" and "0 \<le> index"
  shows "int (length brackets) \<le> index \<or> brackets ! nat index \<notin> set glyphs"
proof (cases "index < int (length brackets)")
  case False
  then show ?thesis by simp
next
  case True
  with assms have "process (brackets ! nat index) stk = Inl f"
    by (simp add: loop_body_def string_at_def)
  with process_glyph_no_fault [of "brackets ! nat index" stk] show ?thesis by auto
qed

lemma main_take: "main len brackets = main len (take (nat len) brackets)"
  using for_loop_take [of len brackets "take (nat len) brackets"] by (simp add: main_def)

lemma main_no_fault_prefix:
  assumes "len \<le> int (length brackets)" and "set (take (nat len) brackets) \<subseteq> set glyphs"
  shows "main len brackets = Inr Valid \<or> main len brackets = Inr Invalid"
proof -
  from assms(1) have "len \<le> int (length (take (nat len) brackets))" by simp
  from main_no_fault [OF assms(2) this] show ?thesis by (simp add: main_take [symmetric])
qed

lemma main_fault_reason:
  assumes "main len brackets = Inl f"
  shows "\<exists>index stk. reachable brackets len (index, stk) \<and> index < len \<and>
           (int (length brackets) \<le> index \<or> brackets ! nat index \<notin> set glyphs)"
proof -
  from assms have "run brackets len (Inl f)" by (simp add: run_main)
  then show ?thesis
  proof (cases rule: run.cases)
    case (faults index open_brackets)
    from reachable_bounds [OF faults(1)] have "0 \<le> index" by simp
    from loop_body_Inl [OF faults(3) this] faults(1,2) show ?thesis by blast
  qed
qed

section \<open>The specification's statements\<close>

text \<open>
  C1: for a string of bracket glyphs given with its own length, the verdict is
  \<open>Valid\<close> exactly when the string is a balanced bracket sequence, and \<open>Invalid\<close>
  exactly when it is not.
\<close>

theorem valid_iff_balanced:
  assumes "set S \<subseteq> set glyphs"
  shows "(main (int (length S)) S = Inr Valid) = balanced S \<and>
         (main (int (length S)) S = Inr Invalid) = (\<not> balanced S)"
proof -
  have v: "(main (int (length S)) S = Inr Valid) = balanced S"
    using main_balanced balanced_main by blast
  from main_no_fault [OF assms, of "int (length S)"]
  have "main (int (length S)) S = Inr Valid \<or> main (int (length S)) S = Inr Invalid" by simp
  with v show ?thesis by auto
qed

theorem valid_iff_balanced_witness:
  "set ''{[()()]}'' \<subseteq> set glyphs \<and> main 8 ''{[()()]}'' = Inr Valid \<and> balanced ''{[()()]}'' \<and>
   set ''(]'' \<subseteq> set glyphs \<and> main 2 ''(]'' = Inr Invalid \<and> \<not> balanced ''(]''"
proof -
  have g: "set ''{[()()]}'' \<subseteq> set glyphs" "set ''(]'' \<subseteq> set glyphs"
    by (simp_all add: glyphs_def)
  have m: "main 8 ''{[()()]}'' = Inr Valid" "main 2 ''(]'' = Inr Invalid"
    by (simp_all add: main_def for_loop.simps loop_body_def string_at_def process_def
          bracket_state_def bracket_type_def)
  from valid_iff_balanced [OF g(1)] valid_iff_balanced [OF g(2)] g m show ?thesis
    by simp
qed

text \<open>
  C2: when the scan is at a closing bracket and the stack is empty, or its top is not
  the type of that bracket, the loop returns \<open>Invalid\<close> there, whatever follows the
  bracket in the string; if the scan got to that point, \<open>Invalid\<close> is the verdict of
  the program for every continuation of the string.
\<close>

theorem unmatched_close_stops_scan:
  assumes "bracket_state c = Some CLOSE" and "bracket_type c = Some t"
    and "stk = [] \<or> hd stk \<noteq> t" and "int (length pre) < len"
  shows "for_loop (pre @ c # rest) len (int (length pre)) stk = Inr (Return Invalid) \<and>
         (reachable (pre @ c # rest) len (int (length pre), stk) \<longrightarrow>
            (\<forall>rest'. main len (pre @ c # rest') = Inr Invalid))"
proof -
  from assms(1-3) have p: "process c stk = Inr (Return Invalid)"
    by (cases stk) (auto simp: process_def)
  have l: "\<And>r. for_loop (pre @ c # r) len (int (length pre)) stk = Inr (Return Invalid)"
    using assms(4) p by (simp add: for_loop_mid)
  {
    fix rest'
    assume "reachable (pre @ c # rest) len (int (length pre), stk)"
    then have "reachable (pre @ c # rest') len (int (length pre), stk)"
      by (rule reachable_prefix) simp
    from reachable_for_loop [OF this] l [of rest']
    have "main len (pre @ c # rest') = Inr Invalid" by (simp add: main_def)
  }
  with l [of rest] show ?thesis by blast
qed

theorem unmatched_close_stops_scan_witness:
  "bracket_state (CHR '']'') = Some CLOSE \<and> bracket_type (CHR '']'') = Some SQUARE \<and>
   hd [ROUND] \<noteq> SQUARE \<and> reachable ''(]x'' 3 (1, [ROUND]) \<and>
   for_loop ''(]x'' 3 1 [ROUND] = Inr (Return Invalid) \<and>
   main 3 ''(]x'' = Inr Invalid \<and> main 3 ''(]{}'' = Inr Invalid"
proof -
  have c: "bracket_state (CHR '']'') = Some CLOSE" "bracket_type (CHR '']'') = Some SQUARE"
    by (simp_all add: bracket_state_def bracket_type_def)
  have h: "[ROUND] = [] \<or> hd [ROUND] \<noteq> SQUARE" by simp
  have l: "int (length ''('') < 3" by simp
  have "loop_body ''(]x'' 0 [] = Inr (Continue [ROUND])"
    by (simp add: loop_body_def string_at_def process_def bracket_state_def bracket_type_def)
  from reachable.iterate [OF reachable.start _ this, of 3]
  have r: "reachable ''(]x'' 3 (1, [ROUND])" by simp
  from unmatched_close_stops_scan [OF c h l, of "''x''"] r c show ?thesis
    by simp
qed

text \<open>
  C3: when the loop is left at its test, with no \<^verbatim>\<open>return\<close> inside it, the verdict
  is \<open>Valid\<close> for an empty stack and \<open>Invalid\<close> for a non-empty one; the input
  \<open>([\<close> is \<open>Invalid\<close>.
\<close>

theorem verdict_after_complete_scan:
  "(reachable brackets len (index, stk) \<and> \<not> index < len \<longrightarrow>
      main len brackets = Inr (if stk = [] then Valid else Invalid)) \<and>
   main 2 ''(['' = Inr Invalid"
proof -
  have "main 2 ''(['' = Inr Invalid"
    by (simp add: main_def for_loop.simps loop_body_def string_at_def process_def
          bracket_state_def bracket_type_def)
  moreover have "main len brackets = Inr (if stk = [] then Valid else Invalid)"
    if "reachable brackets len (index, stk)" "\<not> index < len"
    using reachable_for_loop [OF that(1)] that(2) by (simp add: main_def for_loop_exit)
  ultimately show ?thesis by blast
qed

theorem verdict_after_complete_scan_witness:
  "reachable ''()'' 2 (2, []) \<and> \<not> (2::int) < 2 \<and> main 2 ''()'' = Inr Valid"
proof -
  have "loop_body ''()'' 0 [] = Inr (Continue [ROUND])"
    by (simp add: loop_body_def string_at_def process_def bracket_state_def bracket_type_def)
  from reachable.iterate [OF reachable.start _ this, of 2]
  have r1: "reachable ''()'' 2 (1, [ROUND])" by simp
  have "loop_body ''()'' 1 [ROUND] = Inr (Continue [])"
    by (simp add: loop_body_def string_at_def process_def bracket_state_def bracket_type_def)
  from reachable.iterate [OF r1 _ this]
  have r: "reachable ''()'' 2 (2, [])" by simp
  from verdict_after_complete_scan [of "''()''" 2 2 "[]"] r show ?thesis by simp
qed

text \<open>C4: for the empty string with length 0 the verdict is \<open>Valid\<close>.\<close>

theorem empty_input_valid: "main 0 [] = Inr Valid"
  by (simp add: main_def for_loop_exit)

text \<open>
  C5: in every configuration of the scan the stack, read from bottom to top, is the list
  of the types of the brackets of the scanned prefix that are open and not closed, in
  the order they were opened, and no other list is; a non-empty stack has on top the
  type of the last opening bracket that is followed by a balanced sequence only.
\<close>

theorem stack_is_unclosed_brackets:
  assumes "reachable brackets len (index, stk)"
  shows "unclosed (take (nat index) brackets) (rev stk) \<and>
         (\<forall>ts. unclosed (take (nat index) brackets) ts \<longrightarrow> ts = rev stk) \<and>
         (stk \<noteq> [] \<longrightarrow>
            (\<exists>p a c b. take (nat index) brackets = p @ a # b \<and> (a, c, hd stk) \<in> set pairs \<and>
                       unclosed p (rev (tl stk)) \<and> balanced b))"
proof -
  let ?p = "take (nat index) brackets"
  from reachable_unclosed [OF assms] have u: "unclosed ?p (rev stk)" .
  have "\<exists>p a c b. ?p = p @ a # b \<and> (a, c, hd stk) \<in> set pairs \<and>
          unclosed p (rev (tl stk)) \<and> balanced b" if "stk \<noteq> []"
  proof -
    from that obtain t s where "stk = t # s" by (cases stk) auto
    with u unclosed_snoc [of ?p "rev s" t] show ?thesis by auto
  qed
  with u unclosed_unique [OF u] show ?thesis by blast
qed

theorem stack_is_unclosed_brackets_witness:
  "reachable ''([]'' 2 (2, [SQUARE, ROUND]) \<and> unclosed ''(['' [ROUND, SQUARE] \<and>
   \<not> unclosed ''(['' [ROUND]"
proof -
  have "loop_body ''([]'' 0 [] = Inr (Continue [ROUND])"
    by (simp add: loop_body_def string_at_def process_def bracket_state_def bracket_type_def)
  from reachable.iterate [OF reachable.start _ this, of 2]
  have r1: "reachable ''([]'' 2 (1, [ROUND])" by simp
  have "loop_body ''([]'' 1 [ROUND] = Inr (Continue [SQUARE, ROUND])"
    by (simp add: loop_body_def string_at_def process_def bracket_state_def bracket_type_def)
  from reachable.iterate [OF r1 _ this]
  have r: "reachable ''([]'' 2 (2, [SQUARE, ROUND])" by simp
  from stack_is_unclosed_brackets [OF r] r show ?thesis by auto
qed

text \<open>
  C6: on a string of bracket glyphs given with its own length, the program, which
  leaves the loop at the first closing bracket that does not match, and the full-scan
  reference, which goes through every character, give the same verdict.
\<close>

theorem short_circuit_agrees_with_full_scan:
  assumes "set S \<subseteq> set glyphs"
  shows "main (int (length S)) S = full_scan_reference S"
  using full_scan_for_loop [OF assms, of 0 "int (length S)" "[]"]
  by (simp add: main_verdict_of full_scan_reference_def)

theorem short_circuit_agrees_with_full_scan_witness:
  "set ''(])'' \<subseteq> set glyphs \<and> main 3 ''(])'' = Inr Invalid \<and>
   full_scan_reference ''(])'' = Inr Invalid"
proof -
  have g: "set ''(])'' \<subseteq> set glyphs" by (simp add: glyphs_def)
  have "full_scan_reference ''(])'' = Inr Invalid"
    by (simp add: full_scan_reference_def bracket_state_def bracket_type_def)
  with short_circuit_agrees_with_full_scan [OF g] g show ?thesis by simp
qed

text \<open>
  C7: two complete runs of the program on the same length and string end with the same
  output, which is the value of \<open>main\<close> on that input: every run starts from index 0
  and an empty stack, and nothing else enters it.
\<close>

theorem runs_on_same_input_agree:
  assumes "run brackets len out1" and "run brackets len out2"
  shows "out1 = out2 \<and> out1 = main len brackets"
  using assms by (simp add: run_main)

theorem runs_on_same_input_agree_witness:
  "run ''()'' 2 (Inr Valid) \<and> \<not> run ''()'' 2 (Inr Invalid) \<and> main 2 ''()'' = Inr Valid"
proof -
  have "loop_body ''()'' 0 [] = Inr (Continue [ROUND])"
    by (simp add: loop_body_def string_at_def process_def bracket_state_def bracket_type_def)
  from reachable.iterate [OF reachable.start _ this, of 2]
  have r1: "reachable ''()'' 2 (1, [ROUND])" by simp
  have "loop_body ''()'' 1 [ROUND] = Inr (Continue [])"
    by (simp add: loop_body_def string_at_def process_def bracket_state_def bracket_type_def)
  from reachable.iterate [OF r1 _ this]
  have r: "reachable ''()'' 2 (2, [])" by simp
  from run.finishes [OF r] have v: "run ''()'' 2 (Inr Valid)" by simp
  have "\<not> run ''()'' 2 (Inr Invalid)"
  proof
    assume "run ''()'' 2 (Inr Invalid)"
    from runs_on_same_input_agree [OF v this] show False by simp
  qed
  moreover from runs_on_same_input_agree [OF v v] have "main 2 ''()'' = Inr Valid" by simp
  ultimately show ?thesis using v by simp
qed

text \<open>
  C8: on every input the scan comes to an end: there is a complete run and it has one
  outcome; the loop is entered at indices from 0 up to at most \<open>len\<close>, one stack per
  index, so at most \<open>len\<close> characters are examined. The outcome is one of the two
  verdicts when the string has \<open>len\<close> characters or more and its first \<open>len\<close> are
  glyphs; it is anything else only when the scan comes to a position past the end of the
  string or to a character that is not a glyph, where the source has no defined
  behaviour.
\<close>

theorem scan_terminates_within_length:
  "(\<exists>out. run brackets len out \<and> (\<forall>out'. run brackets len out' \<longrightarrow> out' = out)) \<and>
   (\<forall>index stk. reachable brackets len (index, stk) \<longrightarrow>
      0 \<le> index \<and> index \<le> max 0 len \<and>
      (\<forall>stk'. reachable brackets len (index, stk') \<longrightarrow> stk' = stk)) \<and>
   (len \<le> int (length brackets) \<and> set (take (nat len) brackets) \<subseteq> set glyphs \<longrightarrow>
      main len brackets = Inr Valid \<or> main len brackets = Inr Invalid) \<and>
   (main len brackets \<noteq> Inr Valid \<and> main len brackets \<noteq> Inr Invalid \<longrightarrow>
      (\<exists>index stk. reachable brackets len (index, stk) \<and> index < len \<and>
         (int (length brackets) \<le> index \<or> brackets ! nat index \<notin> set glyphs)))"
proof -
  have "\<exists>out. run brackets len out \<and> (\<forall>out'. run brackets len out' \<longrightarrow> out' = out)"
    by (simp add: run_main)
  moreover have "0 \<le> index \<and> index \<le> max 0 len \<and>
      (\<forall>stk'. reachable brackets len (index, stk') \<longrightarrow> stk' = stk)"
    if r: "reachable brackets len (index, stk)" for index stk
  proof -
    have "stk' = stk" if r': "reachable brackets len (index, stk')" for stk'
    proof -
      from reachable_unclosed [OF r] reachable_unclosed [OF r']
      have "rev stk' = rev stk" by (rule unclosed_unique)
      then show ?thesis by simp
    qed
    with reachable_bounds [OF r] show ?thesis by simp
  qed
  moreover have "main len brackets = Inr Valid \<or> main len brackets = Inr Invalid"
    if "len \<le> int (length brackets) \<and> set (take (nat len) brackets) \<subseteq> set glyphs"
    using that main_no_fault_prefix by blast
  moreover have "\<exists>index stk. reachable brackets len (index, stk) \<and> index < len \<and>
         (int (length brackets) \<le> index \<or> brackets ! nat index \<notin> set glyphs)"
    if "main len brackets \<noteq> Inr Valid \<and> main len brackets \<noteq> Inr Invalid"
  proof -
    from that obtain f where "main len brackets = Inl f"
      by (cases "main len brackets") (auto intro: verdict.exhaust)
    then show ?thesis by (rule main_fault_reason)
  qed
  ultimately show ?thesis by blast
qed

theorem scan_terminates_within_length_witness:
  "run ''(]x'' 2 (Inr Invalid) \<and> reachable ''(]x'' 2 (1, [ROUND]) \<and> (1::int) \<le> max 0 2 \<and>
   (2::int) \<le> int (length ''(]x'') \<and> set (take (nat 2) ''(]x'') \<subseteq> set glyphs \<and>
   main 2 ''(]x'' = Inr Invalid \<and>
   main 3 ''()'' \<noteq> Inr Valid \<and> main 3 ''()'' \<noteq> Inr Invalid \<and>
   (\<exists>index stk. reachable ''()'' 3 (index, stk) \<and> index < 3 \<and>
      (int (length ''()'') \<le> index \<or> ''()'' ! nat index \<notin> set glyphs))"
proof -
  have "loop_body ''(]x'' 0 [] = Inr (Continue [ROUND])"
    by (simp add: loop_body_def string_at_def process_def bracket_state_def bracket_type_def)
  from reachable.iterate [OF reachable.start _ this, of 2]
  have r1: "reachable ''(]x'' 2 (1, [ROUND])" by simp
  have "loop_body ''(]x'' 1 [ROUND] = Inr (Return Invalid)"
    by (simp add: loop_body_def string_at_def process_def bracket_state_def bracket_type_def)
  from run.returns [OF r1 _ this] have v: "run ''(]x'' 2 (Inr Invalid)" by simp
  have g: "set (take (nat 2) ''(]x'') \<subseteq> set glyphs" by (simp add: glyphs_def)
  from scan_terminates_within_length [of "''(]x''" 2] obtain out where
    o: "run ''(]x'' 2 out" "\<forall>out'. run ''(]x'' 2 out' \<longrightarrow> out' = out"
    and m: "main 2 ''(]x'' = Inr Valid \<or> main 2 ''(]x'' = Inr Invalid" using g by auto
  from o v have "out = Inr Invalid" by auto
  moreover from o have "out = main 2 ''(]x''" by (simp add: run_main)
  ultimately have first: "run ''(]x'' 2 (Inr Invalid) \<and> reachable ''(]x'' 2 (1, [ROUND]) \<and>
      (1::int) \<le> max 0 2 \<and> (2::int) \<le> int (length ''(]x'') \<and>
      set (take (nat 2) ''(]x'') \<subseteq> set glyphs \<and> main 2 ''(]x'' = Inr Invalid"
    using v r1 g by simp
  have f: "main 3 ''()'' = Inl NoReturnValue"
    by (simp add: main_def for_loop.simps loop_body_def string_at_def process_def
          bracket_state_def bracket_type_def)
  then have n: "main 3 ''()'' \<noteq> Inr Valid \<and> main 3 ''()'' \<noteq> Inr Invalid" by simp
  with scan_terminates_within_length [of "''()''" 3]
  have "\<exists>index stk. reachable ''()'' 3 (index, stk) \<and> index < 3 \<and>
      (int (length ''()'') \<le> index \<or> ''()'' ! nat index \<notin> set glyphs)" by blast
  with first n show ?thesis by blast
qed

text \<open>
  The outcome is not a verdict on every input: with length 3 and the string \<open>()\<close> the
  scan reads the terminating \<open>'\0'\<close>, with length 1 and the string \<open>x\<close> a
  character that is no bracket, and \<open>bracket_state\<close> returns nothing for either.
\<close>

theorem verdict_on_every_input_counterexample:
  "main 3 ''()'' = Inl NoReturnValue \<and> main 3 ''()'' \<noteq> Inr Valid \<and> main 3 ''()'' \<noteq> Inr Invalid \<and>
   main 1 ''x'' = Inl NoReturnValue \<and> main 1 ''x'' \<noteq> Inr Valid \<and> main 1 ''x'' \<noteq> Inr Invalid"
proof -
  have "main 3 ''()'' = Inl NoReturnValue" "main 1 ''x'' = Inl NoReturnValue"
    by (simp_all add: main_def for_loop.simps loop_body_def string_at_def process_def
          bracket_state_def bracket_type_def)
  then show ?thesis by simp
qed

text \<open>
  C9: on each of the six glyphs both classifiers return a value, the type of the
  glyph's pair and its role; the path that falls off the end is taken exactly on the
  other characters.
\<close>

theorem classifiers_defined_on_glyphs:
  "((c, t, s) \<in> set glyph_table \<longrightarrow> bracket_type c = Some t \<and> bracket_state c = Some s) \<and>
   (c \<in> set glyphs \<longrightarrow> (\<exists>t s. (c, t, s) \<in> set glyph_table)) \<and>
   ((bracket_type c = None) = (c \<notin> set glyphs)) \<and>
   ((bracket_state c = None) = (c \<notin> set glyphs))"
  by (auto simp: glyph_table_def glyphs_def bracket_type_def bracket_state_def)

theorem classifiers_defined_on_glyphs_witness:
  "(CHR ''{'', CURLY, OPEN) \<in> set glyph_table \<and> CHR ''{'' \<in> set glyphs \<and>
   bracket_type (CHR ''{'') = Some CURLY \<and> bracket_state (CHR ''{'') = Some OPEN"
  using classifiers_defined_on_glyphs [of "CHR ''{''" CURLY OPEN]
  by (simp add: glyph_table_def glyphs_def)

text \<open>
  C10: the verdict is a function of \<open>len\<close> and the first \<open>len\<close> characters of the
  string: two strings that agree there give the same result, whatever stands at
  position \<open>len\<close> and beyond.
\<close>

theorem verdict_depends_on_first_len_characters:
  assumes "take (nat len) S1 = take (nat len) S2"
  shows "main len S1 = main len S2"
  using for_loop_take [OF assms] by (simp add: main_def)

theorem verdict_depends_on_first_len_characters_witness:
  "take (nat 2) ''()(('' = take (nat 2) ''()x'' \<and> main 2 ''()(('' = Inr Valid \<and>
   main 2 ''()x'' = Inr Valid"
proof -
  have t: "take (nat 2) ''()(('' = take (nat 2) ''()x''" by simp
  have "main 2 ''()(('' = Inr Valid"
    by (simp add: main_def for_loop.simps loop_body_def string_at_def process_def
          bracket_state_def bracket_type_def)
  with verdict_depends_on_first_len_characters [OF t] t show ?thesis by simp
qed

end
